theory Spec2Isabelle
  imports Main "HOL-Library.Monad_Syntax"
begin

section \<open>The in-memory index of t3tree (main.go)\<close>

text \<open>
  The struct \<^verbatim>\<open>mysql\<close> holds three Go maps and a slice. Page ids are Go \<^verbatim>\<open>int\<close>s;
  the program only compares them, so they are modelled as \<open>int\<close>. The one sum the
  program computes on an \<^verbatim>\<open>int\<close>, \<^verbatim>\<open>nassoc+1\<close>, wraps at 64 bits. The database
  handle is outside the model: what a query returns is an argument of the function that
  runs it.
\<close>

definition wrap64 :: "int \<Rightarrow> int" where
  "wrap64 i = (i + 2 ^ 63) mod 2 ^ 64 - 2 ^ 63"

record mysql =
  pages :: "int \<rightharpoonup> int"
  domains :: "int \<rightharpoonup> string"
  assoc :: "int \<rightharpoonup> string list"
  roots :: "int list"

datatype error =
    OpenError
  | PingError
  | QueryFailed
  | PagesRowError
  | DomainsRowError
  | ScanQueryError
  | MakeSliceLenOutOfRange
  | IndexOutOfRange
  | NoDSN
  | NoUIDs

text \<open>
  \<^verbatim>\<open>rows.Scan\<close> either fails or fills its destinations; \<^verbatim>\<open>m.db.Query\<close> either
  fails or gives the rows that \<^verbatim>\<open>rows.Next\<close> then walks through in order.
\<close>

datatype 'r scan = ScanFails | Scanned 'r

datatype 'r rows = QueryFails | Rows "'r scan list"

type_synonym pages_row = "int \<times> int \<times> bool"
type_synonym domains_row = "int \<times> string \<times> bool"
type_synonym query_row = "int \<times> string list"

definition make_mysql :: mysql where
  "make_mysql = \<lparr>pages = Map.empty, domains = Map.empty, assoc = Map.empty, roots = []\<rparr>"

subsection \<open>loadPages\<close>

fun loadPages_rows :: "pages_row scan list \<Rightarrow> mysql \<Rightarrow> error + mysql" where
  "loadPages_rows [] m = Inr m"
| "loadPages_rows (ScanFails # rs) m = Inl PagesRowError"
| "loadPages_rows (Scanned (uid, pid, isroot) # rs) m =
     (let m1 = m\<lparr>pages := (pages m)(uid \<mapsto> pid)\<rparr>;
          m2 = (if isroot \<or> pid = 0 then m1\<lparr>roots := roots m1 @ [uid]\<rparr> else m1)
      in loadPages_rows rs m2)"

definition loadPages :: "pages_row rows \<Rightarrow> mysql \<Rightarrow> error + mysql" where
  "loadPages q m = (case q of QueryFails \<Rightarrow> Inl QueryFailed | Rows rs \<Rightarrow> loadPages_rows rs m)"

subsection \<open>isRoot and root\<close>

fun isRoot_from :: "int list \<Rightarrow> int \<Rightarrow> bool" where
  "isRoot_from [] pid = False"
| "isRoot_from (r # rs) pid = (if r = pid then True else isRoot_from rs pid)"

definition isRoot :: "mysql \<Rightarrow> int \<Rightarrow> bool" where
  "isRoot m pid = isRoot_from (roots m) pid"

text \<open>
  The ascent of \<^verbatim>\<open>root\<close> is a \<^verbatim>\<open>for\<close> without a condition: it may run forever, and
  then the model's value is \<open>None\<close>.
\<close>

partial_function (option) root_loop :: "mysql \<Rightarrow> int \<Rightarrow> int option" where
  "root_loop m pid =
     (case pages m pid of
        None \<Rightarrow> Some 0
      | Some p \<Rightarrow> if isRoot m p then Some p else root_loop m p)"

declare root_loop.simps [code]

definition root :: "mysql \<Rightarrow> int \<Rightarrow> int option" where
  "root m pid = (if isRoot m pid then Some pid else root_loop m pid)"

subsection \<open>loadDomains and domain\<close>

text \<open>
  The condition of the guard reads \<^verbatim>\<open>ok { // && !forced {\<close>: the test of the forced
  flag is commented out, so a row is skipped whenever its pid is already bound.
\<close>

fun loadDomains_rows :: "domains_row scan list \<Rightarrow> mysql \<Rightarrow> error + mysql" where
  "loadDomains_rows [] m = Inr m"
| "loadDomains_rows (ScanFails # rs) m = Inl DomainsRowError"
| "loadDomains_rows (Scanned (pid, domain, forced) # rs) m =
     (if domains m pid \<noteq> None then loadDomains_rows rs m
      else loadDomains_rows rs (m\<lparr>domains := (domains m)(pid \<mapsto> domain)\<rparr>))"

definition loadDomains :: "domains_row rows \<Rightarrow> mysql \<Rightarrow> error + mysql" where
  "loadDomains q m =
     (case q of QueryFails \<Rightarrow> Inl QueryFailed | Rows rs \<Rightarrow> loadDomains_rows rs m)"

text \<open>
  The earlier revision of the file (its first 223 lines) has the guard
  \<^verbatim>\<open>ok && !forced\<close>.
\<close>

fun loadDomains_rows_earlier :: "domains_row scan list \<Rightarrow> mysql \<Rightarrow> error + mysql" where
  "loadDomains_rows_earlier [] m = Inr m"
| "loadDomains_rows_earlier (ScanFails # rs) m = Inl DomainsRowError"
| "loadDomains_rows_earlier (Scanned (pid, domain, forced) # rs) m =
     (if domains m pid \<noteq> None \<and> \<not> forced then loadDomains_rows_earlier rs m
      else loadDomains_rows_earlier rs (m\<lparr>domains := (domains m)(pid \<mapsto> domain)\<rparr>))"

text \<open>A Go map gives the zero value, the empty string, for a key it does not hold.\<close>

definition domain :: "mysql \<Rightarrow> int \<Rightarrow> string" where
  "domain m pid = (case domains m pid of None \<Rightarrow> [] | Some d \<Rightarrow> d)"

text \<open>
  What the database does in a run: whether \<^verbatim>\<open>sql.Open\<close> and \<^verbatim>\<open>Ping\<close> succeed,
  and the rows it returns for the two fixed queries and for a query text.
\<close>

record database =
  db_open :: bool
  db_ping :: bool
  db_pages :: "pages_row rows"
  db_domains :: "domains_row rows"
  db_query :: "string \<Rightarrow> query_row rows"

definition newMysql :: "database \<Rightarrow> error + mysql" where
  "newMysql db =
     (if \<not> db_open db then Inl OpenError
      else if \<not> db_ping db then Inl PingError
      else case loadPages (db_pages db) make_mysql of
             Inl e \<Rightarrow> Inl e
           | Inr m \<Rightarrow> loadDomains (db_domains db) m)"

subsection \<open>query\<close>

text \<open>
  A scanned row is the uid and the strings that \<^verbatim>\<open>Scan\<close> stored through the
  \<^verbatim>\<open>nassoc\<close> pointers; \<^verbatim>\<open>Scan\<close> fails when the number of columns is not the
  number of its destinations. \<^verbatim>\<open>make\<close> panics on a negative length (the limit of
  what can be allocated is not modelled). The map
  \<^verbatim>\<open>m.assoc\<close> is written before a later row fails, so the state is returned beside
  the error.
\<close>

fun query_rows ::
  "query_row scan list \<Rightarrow> nat \<Rightarrow> int list \<Rightarrow> mysql \<Rightarrow> (error + int list) \<times> mysql" where
  "query_rows [] nassoc uids m = (Inr uids, m)"
| "query_rows (ScanFails # rs) nassoc uids m = (Inl ScanQueryError, m)"
| "query_rows (Scanned (uid, data) # rs) nassoc uids m =
     (if length data \<noteq> nassoc then (Inl ScanQueryError, m)
      else query_rows rs nassoc (uids @ [uid]) (m\<lparr>assoc := (assoc m)(uid \<mapsto> data)\<rparr>))"

definition query :: "query_row rows \<Rightarrow> int \<Rightarrow> mysql \<Rightarrow> (error + int list) \<times> mysql" where
  "query q nassoc m =
     (case q of
        QueryFails \<Rightarrow> (Inl QueryFailed, m)
      | Rows rs \<Rightarrow>
          if nassoc < 0 \<or> wrap64 (nassoc + 1) < 0 then (Inl MakeSliceLenOutOfRange, m)
          else query_rows rs (nat nassoc) [] m)"

subsection \<open>children\<close>

text \<open>
  \<^verbatim>\<open>for uid := range m.pages\<close> visits every key once, in an order Go leaves
  open. The order is a parameter: \<open>ord pid\<close> lists the keys as the loop of the call
  for \<open>pid\<close> visits them. The recursion has no bound, so the result is an option.
\<close>

partial_function (option) children_range ::
  "(int \<Rightarrow> int list) \<Rightarrow> mysql \<Rightarrow> int list \<Rightarrow> int \<Rightarrow> int list \<Rightarrow> int list option" where
  "children_range ord m ks pid pids =
     (case ks of
        [] \<Rightarrow> Some pids
      | uid # rest \<Rightarrow>
          if pages m uid = Some pid
          then do {
            pids' \<leftarrow> children_range ord m (ord uid) uid (pids @ [uid]);
            children_range ord m rest pid pids'
          }
          else children_range ord m rest pid pids)"

declare children_range.simps [code]

definition children :: "(int \<Rightarrow> int list) \<Rightarrow> mysql \<Rightarrow> int \<Rightarrow> int list \<Rightarrow> int list option" where
  "children ord m pid pids = children_range ord m (ord pid) pid pids"

subsection \<open>The selection of main\<close>

fun children_each ::
  "(int \<Rightarrow> int list) \<Rightarrow> mysql \<Rightarrow> int list \<Rightarrow> int list \<Rightarrow> int list option" where
  "children_each ord m [] uids = Some uids"
| "children_each ord m (qid # qids) uids =
     do { uids' \<leftarrow> children ord m qid uids; children_each ord m qids uids' }"

fun root_each :: "mysql \<Rightarrow> int list \<Rightarrow> int list \<Rightarrow> int list option" where
  "root_each m [] uids = Some uids"
| "root_each m (qid # qids) uids =
     do { r \<leftarrow> root m qid; root_each m qids (uids @ [r]) }"

definition select_pid ::
  "(int \<Rightarrow> int list) \<Rightarrow> mysql \<Rightarrow> int \<Rightarrow> bool \<Rightarrow> bool \<Rightarrow> int list option" where
  "select_pid ord m pid ch rt =
     (if pid > 0 then do {
        u1 \<leftarrow> (if ch then children ord m pid [] else Some []);
        u2 \<leftarrow> (if rt then do { r \<leftarrow> root m pid; Some (u1 @ [r]) } else Some u1);
        Some (if \<not> ch \<and> \<not> rt then u2 @ [pid] else u2)
      }
      else Some [])"

definition select_query ::
  "(int \<Rightarrow> int list) \<Rightarrow> mysql \<Rightarrow> int list \<Rightarrow> bool \<Rightarrow> bool \<Rightarrow> int list \<Rightarrow> int list option" where
  "select_query ord m qids ch rt uids =
     do {
       u1 \<leftarrow> (if ch then children_each ord m qids uids else Some uids);
       u2 \<leftarrow> (if rt then root_each m qids u1 else Some u1);
       Some (if \<not> ch \<and> \<not> rt then qids else u2)
     }"

text \<open>
  Lines 418 to 448 of \<^verbatim>\<open>main\<close>: the uids from \<^verbatim>\<open>-pid\<close>, then from \<^verbatim>\<open>-query\<close>.
  \<open>db\<close> gives the rows the database returns for a query text.
\<close>

definition select ::
  "(int \<Rightarrow> int list) \<Rightarrow> mysql \<Rightarrow> int \<Rightarrow> string \<Rightarrow> (string \<Rightarrow> query_row rows) \<Rightarrow> int \<Rightarrow>
   bool \<Rightarrow> bool \<Rightarrow> (error + int list \<times> mysql) option" where
  "select ord m pid q db nassoc ch rt =
     do {
       uids \<leftarrow> select_pid ord m pid ch rt;
       if q \<noteq> [] then
         (case query (db q) nassoc m of
            (Inl e, m') \<Rightarrow> Some (Inl e)
          | (Inr qids, m') \<Rightarrow>
              do { uids' \<leftarrow> select_query ord m' qids ch rt uids; Some (Inr (uids', m')) })
       else Some (Inr (uids, m))
     }"

subsection \<open>Output\<close>

function nat_dec :: "nat \<Rightarrow> string" where
  "nat_dec n =
     (if n < 10 then [char_of (48 + n)] else nat_dec (n div 10) @ [char_of (48 + n mod 10)])"
  by pat_completeness auto
termination
  by (relation "measure id") auto

declare nat_dec.simps [simp del]

definition itoa :: "int \<Rightarrow> string" where
  "itoa i = (if i < 0 then CHR ''-'' # nat_dec (nat (- i)) else nat_dec (nat i))"

fun join :: "string list \<Rightarrow> string \<Rightarrow> string" where
  "join [] sep = []"
| "join [a] sep = a"
| "join (a # b # bs) sep = a @ sep @ join (b # bs) sep"

definition intsToString :: "int list \<Rightarrow> string \<Rightarrow> string" where
  "intsToString a sep = (if length a = 0 then [] else join (map itoa a) sep)"

text \<open>\<^verbatim>\<open>strings.Replace(s, "\"", "\\\"", -1)\<close> between two double quotes.\<close>

definition quoted :: "string \<Rightarrow> string" where
  "quoted s =
     [CHR 0x22] @ concat (map (\<lambda>c. if c = CHR 0x22 then [CHR 0x5C, CHR 0x22] else [c]) s)
       @ [CHR 0x22]"

definition url :: "string \<Rightarrow> int \<Rightarrow> string" where
  "url d uid = ''https://'' @ d @ ''/index.php?id='' @ itoa uid"

definition quoted_url :: "string \<Rightarrow> int \<Rightarrow> string" where
  "quoted_url d uid = [CHR 0x22] @ url d uid @ [CHR 0x22]"

text \<open>
  \<^verbatim>\<open>for i := range assoc { fields[i+1] = ... }\<close>; an index beyond the buffer panics.
\<close>

fun fill_fields :: "string list \<Rightarrow> nat \<Rightarrow> string list \<Rightarrow> error + string list" where
  "fill_fields flds i [] = Inr flds"
| "fill_fields flds i (a # rest) =
     (if i + 1 < length flds then fill_fields (flds[i + 1 := quoted a]) (i + 1) rest
      else Inl IndexOutOfRange)"

text \<open>
  The loop of the URL mode, over the buffer \<^verbatim>\<open>fields\<close> that is made once before it.
  The result is the printed rows, each as the list of strings that is joined with a comma
  (one string, the plain URL, when \<^verbatim>\<open>nassoc\<close> is not positive), and the panic that
  ended the loop, if any.
\<close>

fun url_loop ::
  "mysql \<Rightarrow> int \<Rightarrow> string list \<Rightarrow> int list \<Rightarrow> (string list list \<times> error option) option" where
  "url_loop m nassoc flds [] = Some ([], None)"
| "url_loop m nassoc flds (uid # uids) =
     do {
       rid \<leftarrow> root m uid;
       if domain m rid = [] then url_loop m nassoc flds uids
       else if nassoc > 0 then
         if length flds = 0 then Some ([], Some IndexOutOfRange) else
         (case fill_fields (flds[0 := quoted_url (domain m rid) uid]) 0
                 (case assoc m uid of None \<Rightarrow> [] | Some a \<Rightarrow> a) of
            Inl e \<Rightarrow> Some ([], Some e)
          | Inr flds' \<Rightarrow>
              do { (rows, e) \<leftarrow> url_loop m nassoc flds' uids; Some (flds' # rows, e) })
       else
         do { (rows, e) \<leftarrow> url_loop m nassoc flds uids;
              Some ([url (domain m rid) uid] # rows, e) }
     }"

definition url_mode ::
  "mysql \<Rightarrow> int \<Rightarrow> int list \<Rightarrow> (string list list \<times> error option) option" where
  "url_mode m nassoc uids =
     (if wrap64 (nassoc + 1) < 0 then Some ([], Some MakeSliceLenOutOfRange)
      else url_loop m nassoc (replicate (nat (wrap64 (nassoc + 1))) []) uids)"

definition print_row :: "string list \<Rightarrow> string" where
  "print_row flds = join flds '','' @ [CHR 0x0A]"

subsection \<open>main\<close>

record flags =
  flag_pid :: int
  flag_dsn :: string
  flag_query :: string
  flag_nfields :: int
  flag_children :: bool
  flag_roots :: bool
  flag_csv :: bool

text \<open>
  The result of a run: the lines printed on the standard output and the fatal error or
  panic that ended it, if any; \<open>None\<close> when the run does not end.
\<close>

definition main ::
  "(int \<Rightarrow> int list) \<Rightarrow> database \<Rightarrow> flags \<Rightarrow> (string list \<times> error option) option" where
  "main ord db fl =
     (if flag_dsn fl = [] then Some ([], Some NoDSN)
      else case newMysql db of
        Inl e \<Rightarrow> Some ([], Some e)
      | Inr m \<Rightarrow>
          do {
            sel \<leftarrow> select ord m (flag_pid fl) (flag_query fl) (db_query db) (flag_nfields fl)
                     (flag_children fl) (flag_roots fl);
            case sel of
              Inl e \<Rightarrow> Some ([], Some e)
            | Inr (uids, m') \<Rightarrow>
                if length uids = 0 then Some ([], Some NoUIDs)
                else if flag_csv fl then Some ([intsToString uids '', '' @ [CHR 0x0A]], None)
                else do {
                  (rows, e) \<leftarrow> url_mode m' (flag_nfields fl) uids;
                  Some (map print_row rows, e)
                }
          })"

subsection \<open>Parent-pointer hops, for stating properties\<close>

text \<open>\<open>ancestor m n x\<close> is the id reached from \<open>x\<close> by \<open>n\<close> lookups in the parent map.\<close>

fun ancestor :: "mysql \<Rightarrow> nat \<Rightarrow> int \<Rightarrow> int option" where
  "ancestor m 0 x = Some x"
| "ancestor m (Suc n) x = (case pages m x of None \<Rightarrow> None | Some p \<Rightarrow> ancestor m n p)"

text \<open>
  \<open>climbs m x n y\<close>: \<open>y\<close> is \<open>n\<close> hops above \<open>x\<close> and no id met before \<open>y\<close> is in the
  root set.
\<close>

definition climbs :: "mysql \<Rightarrow> int \<Rightarrow> nat \<Rightarrow> int \<Rightarrow> bool" where
  "climbs m x n y \<longleftrightarrow>
     ancestor m n x = Some y \<and> (\<forall>k<n. \<forall>z. ancestor m k x = Some z \<longrightarrow> \<not> isRoot m z)"

text \<open>The parent map as a relation: an edge from every id to its parent id.\<close>

definition parent_rel :: "mysql \<Rightarrow> (int \<times> int) set" where
  "parent_rel m = {(x, p). pages m x = Some p}"

subsection \<open>Example states\<close>

text \<open>
  A small forest: page 1 is a root with the subtree 2, 3, 4; page 6 hangs below an id,
  5, that the parent map does not hold.
\<close>

definition tree_m :: mysql where
  "tree_m = \<lparr>pages = [1 \<mapsto> 0, 2 \<mapsto> 1, 3 \<mapsto> 2, 4 \<mapsto> 1, 6 \<mapsto> 5],
             domains = [1 \<mapsto> ''example.com''], assoc = Map.empty, roots = [1]\<rparr>"

text \<open>Two pages without a root flag, the first with the parent id 0.\<close>

definition plain_rows :: "pages_row scan list" where
  "plain_rows = [Scanned (1, 0, False), Scanned (2, 1, False)]"

definition plain_m :: mysql where
  "plain_m = \<lparr>pages = [1 \<mapsto> 0, 2 \<mapsto> 1], domains = Map.empty, assoc = Map.empty,
              roots = [1]\<rparr>"

text \<open>
  A pages relation with a row whose uid is 0, below the flagged root 1, and the state
  loaded from it.
\<close>

definition zero_rows :: "pages_row scan list" where
  "zero_rows = [Scanned (0, 1, False), Scanned (1, 9, True)]"

definition zero_m :: mysql where
  "zero_m = \<lparr>pages = [0 \<mapsto> 1, 1 \<mapsto> 9], domains = Map.empty, assoc = Map.empty,
             roots = [1]\<rparr>"

text \<open>Page 1 below the cycle of the pages 2 and 3; no root.\<close>

definition cyc_m :: mysql where
  "cyc_m = \<lparr>pages = [1 \<mapsto> 2, 2 \<mapsto> 3, 3 \<mapsto> 2], domains = Map.empty, assoc = Map.empty,
            roots = []\<rparr>"

text \<open>The three domain rows of the precedence example, for the root id 7.\<close>

definition forced_rows :: "domains_row scan list" where
  "forced_rows = [Scanned (7, ''a'', False), Scanned (7, ''b'', False), Scanned (7, ''c'', True)]"

text \<open>A database that answers every query text with the single id 5 and no other column.\<close>

definition one_query :: "string \<Rightarrow> query_row rows" where
  "one_query q = Rows [Scanned (5, [])]"

text \<open>An order of the keys of \<open>tree_m\<close> for each call of \<open>children\<close>.\<close>

definition tree_ord :: "int \<Rightarrow> int list" where
  "tree_ord pid = (if pid = 1 then [4, 6, 2, 1, 3] else [1, 2, 3, 4, 6])"

text \<open>A database that answers every query text with the ids 2 and 6.\<close>

definition two_query :: "string \<Rightarrow> query_row rows" where
  "two_query q = Rows [Scanned (2, []), Scanned (6, [])]"

text \<open>The end-to-end example with associated values for page 2 only.\<close>

definition assoc_m :: mysql where
  "assoc_m = \<lparr>pages = [1 \<mapsto> 0, 2 \<mapsto> 1, 3 \<mapsto> 2],
              domains = [1 \<mapsto> ''example.com''], assoc = [2 \<mapsto> [''x'', ''y'']],
              roots = [1]\<rparr>"

text \<open>The database and the flags of the end-to-end example: \<^verbatim>\<open>-pid 3 -roots\<close>.\<close>

definition example_db :: database where
  "example_db = \<lparr>db_open = True, db_ping = True,
     db_pages = Rows [Scanned (1, 0, True), Scanned (2, 1, False), Scanned (3, 2, False)],
     db_domains = Rows [Scanned (1, ''example.com'', False)],
     db_query = (\<lambda>q. QueryFails)\<rparr>"

definition example_flags :: flags where
  "example_flags = \<lparr>flag_pid = 3, flag_dsn = ''dsn'', flag_query = [], flag_nfields = 0,
     flag_children = False, flag_roots = True, flag_csv = False\<rparr>"

section \<open>Properties\<close>

lemma wrap64_in_range: "- (2 ^ 63) \<le> i \<Longrightarrow> i < 2 ^ 63 \<Longrightarrow> wrap64 i = i"
  by (simp add: wrap64_def)

lemma wrap64_one [simp]: "wrap64 1 = 1"
  by (simp add: wrap64_in_range)

lemma wrap64_overflow: "wrap64 (2 ^ 63) < 0"
  by (simp add: wrap64_def)

lemma isRoot_from_iff: "isRoot_from rs pid \<longleftrightarrow> pid \<in> set rs"
  by (induction rs) auto

lemma isRoot_iff: "isRoot m pid \<longleftrightarrow> pid \<in> set (roots m)"
  by (simp add: isRoot_def isRoot_from_iff)

lemma climbs_step:
  assumes "climbs m x (Suc n) y" and "pages m x = Some p"
  shows "climbs m p n y"
proof -
  have a: "ancestor m n p = Some y"
    using assms by (simp add: climbs_def)
  have "\<not> isRoot m z" if "k < n" and "ancestor m k p = Some z" for k z
  proof -
    have "ancestor m (Suc k) x = Some z" using that assms(2) by simp
    moreover have "Suc k < Suc n" using that by simp
    ultimately show ?thesis using assms(1) unfolding climbs_def by blast
  qed
  with a show ?thesis unfolding climbs_def by blast
qed

lemma climbs_first_not_root: "climbs m x (Suc n) y \<Longrightarrow> \<not> isRoot m x"
  unfolding climbs_def by (metis ancestor.simps(1) zero_less_Suc)

lemma climbs_parent: "climbs m x (Suc n) y \<Longrightarrow> \<exists>p. pages m x = Some p"
  unfolding climbs_def by (cases "pages m x") auto

lemma root_loop_reaches_root:
  "climbs m x (Suc n) r \<Longrightarrow> isRoot m r \<Longrightarrow> root_loop m x = Some r"
proof (induction n arbitrary: x)
  case 0
  then have "pages m x = Some r"
    by (auto simp: climbs_def split: option.splits)
  with 0 show ?case by (simp add: root_loop.simps)
next
  case (Suc n)
  from climbs_parent [OF Suc.prems(1)] obtain p where p: "pages m x = Some p" by blast
  have c: "climbs m p (Suc n) r" using climbs_step [OF Suc.prems(1) p] .
  have "\<not> isRoot m p" using climbs_first_not_root [OF c] .
  with p have "root_loop m x = root_loop m p" by (simp add: root_loop.simps)
  with Suc.IH [OF c Suc.prems(2)] show ?case by simp
qed

lemma root_loop_broken_chain:
  "climbs m x n y \<Longrightarrow> \<not> isRoot m y \<Longrightarrow> pages m y = None \<Longrightarrow> root_loop m x = Some 0"
proof (induction n arbitrary: x)
  case 0
  then have "x = y" by (simp add: climbs_def)
  with 0 show ?case by (simp add: root_loop.simps)
next
  case (Suc n)
  from climbs_parent [OF Suc.prems(1)] obtain p where p: "pages m x = Some p" by blast
  have c: "climbs m p n y" using climbs_step [OF Suc.prems(1) p] .
  have "\<not> isRoot m p"
  proof (cases n)
    case 0
    with c have "p = y" by (simp add: climbs_def)
    with Suc.prems(2) show ?thesis by simp
  next
    case (Suc k)
    with c show ?thesis using climbs_first_not_root by blast
  qed
  with p have "root_loop m x = root_loop m p" by (simp add: root_loop.simps)
  with Suc.IH [OF c Suc.prems(2) Suc.prems(3)] show ?case by simp
qed

subsection \<open>root\<close>

text \<open>
  Claim C2. \<open>root\<close> returns the id itself when it is in the root set; otherwise it
  follows the parent map and returns the first id met that is in the root set; and when
  the ascent reaches, without meeting a root, an id that the parent map does not hold, it
  returns 0.
\<close>

theorem root_follows_parents:
  "(isRoot m x \<longrightarrow> root m x = Some x) \<and>
   (\<forall>n r. \<not> isRoot m x \<and> climbs m x n r \<and> isRoot m r \<longrightarrow> root m x = Some r) \<and>
   (\<forall>n y. climbs m x n y \<and> \<not> isRoot m y \<and> pages m y = None \<longrightarrow> root m x = Some 0)"
proof (intro conjI allI impI)
  assume "isRoot m x"
  then show "root m x = Some x" by (simp add: root_def)
next
  fix n r
  assume a: "\<not> isRoot m x \<and> climbs m x n r \<and> isRoot m r"
  then obtain k where "n = Suc k" by (cases n) (auto simp: climbs_def)
  with a show "root m x = Some r"
    using root_loop_reaches_root [of m x k r] by (simp add: root_def)
next
  fix n y
  assume a: "climbs m x n y \<and> \<not> isRoot m y \<and> pages m y = None"
  have "\<not> isRoot m x"
  proof (cases n)
    case 0
    with a show ?thesis by (simp add: climbs_def)
  next
    case (Suc k)
    with a show ?thesis using climbs_first_not_root by blast
  qed
  with a show "root m x = Some 0"
    using root_loop_broken_chain [of m x n y] by (simp add: root_def)
qed

theorem root_follows_parents_witness:
  "root tree_m 1 = Some 1 \<and> root tree_m 3 = Some 1 \<and> root tree_m 6 = Some 0"
proof -
  have r1: "isRoot tree_m 1" by (simp add: isRoot_def tree_m_def)
  have n3: "\<not> isRoot tree_m 3" by (simp add: isRoot_def tree_m_def)
  have c3: "climbs tree_m 3 2 1"
    by (simp add: climbs_def isRoot_def tree_m_def less_Suc_eq numeral_2_eq_2)
  have c6: "climbs tree_m 6 1 5" by (simp add: climbs_def isRoot_def tree_m_def)
  have n5: "\<not> isRoot tree_m 5" by (simp add: isRoot_def tree_m_def)
  have p5: "pages tree_m 5 = None" by (simp add: tree_m_def)
  have "root tree_m 1 = Some 1" using root_follows_parents [of tree_m 1] r1 by blast
  moreover have "root tree_m 3 = Some 1"
    using root_follows_parents [of tree_m 3] n3 c3 r1 by blast
  moreover have "root tree_m 6 = Some 0"
    using root_follows_parents [of tree_m 6] c6 n5 p5 by blast
  ultimately show ?thesis by simp
qed

lemma root_loop_result:
  assumes "root_loop m x = Some r"
  shows "isRoot m r \<or> r = 0"
proof (rule root_loop.raw_induct [where P = "\<lambda>m x r. isRoot m r \<or> r = 0", OF _ assms])
  fix f m pid r
  assume "\<And>m pid r. f m pid = Some r \<Longrightarrow> isRoot m r \<or> r = 0"
    and "(case pages m pid of None \<Rightarrow> Some 0
          | Some p \<Rightarrow> if isRoot m p then Some p else f m p) = Some r"
  then show "isRoot m r \<or> r = 0"
    by (auto split: option.splits if_splits)
qed

lemma root_result: "root m x = Some r \<Longrightarrow> isRoot m r \<or> r = 0"
  by (auto simp: root_def dest: root_loop_result split: if_splits)

text \<open>
  Claim C4, as stated, fails: the sentinel 0 is also an id. In the state loaded from
  \<open>zero_rows\<close>, where a page has the uid 0, the parent 1 and no root flag, the unknown
  id 7 resolves to the sentinel 0, and 0 resolves to the root 1.
\<close>

theorem root_idempotent_counterexample:
  "loadPages (Rows zero_rows) make_mysql = Inr zero_m \<and>
   root zero_m 7 = Some 0 \<and> root zero_m 0 = Some 1 \<and> root zero_m 0 \<noteq> root zero_m 7"
  by (simp add: loadPages_def zero_rows_def make_mysql_def zero_m_def
      root_def isRoot_def root_loop.simps)

text \<open>
  Claim C4, amended. Whenever \<open>root x\<close> returns \<open>r\<close>, \<open>root r\<close> returns \<open>r\<close> again,
  provided that \<open>r\<close> is not 0, or 0 is in the root set, or the parent map has no entry
  for 0.
\<close>

theorem root_idempotent_amended:
  "root m x = Some r \<Longrightarrow> r \<noteq> 0 \<or> isRoot m 0 \<or> pages m 0 = None \<Longrightarrow> root m r = Some r"
  using root_result [of m x r] by (auto simp: root_def root_loop.simps)

theorem root_idempotent_amended_witness:
  "root tree_m 3 = Some 1 \<and> root tree_m 1 = Some 1 \<and>
   root tree_m 6 = Some 0 \<and> root tree_m 0 = Some 0"
proof -
  have a: "root tree_m 3 = Some 1" and b: "root tree_m 6 = Some 0"
    by (simp_all add: root_def isRoot_def root_loop.simps tree_m_def)
  have c: "pages tree_m 0 = None" by (simp add: tree_m_def)
  have "root tree_m 1 = Some 1" using root_idempotent_amended [OF a] by simp
  moreover have "root tree_m 0 = Some 0" using root_idempotent_amended [OF b] c by simp
  ultimately show ?thesis using a b by simp
qed

subsection \<open>loadPages\<close>

lemma loadPages_rows_zero_pid:
  "loadPages_rows rs m = Inr m' \<Longrightarrow> (\<forall>x. pages m x = Some 0 \<longrightarrow> x \<in> set (roots m)) \<Longrightarrow>
   pages m' x = Some 0 \<Longrightarrow> x \<in> set (roots m')"
proof (induction rs m rule: loadPages_rows.induct)
  case (3 uid pid isroot rs m)
  let ?m1 = "m\<lparr>pages := (pages m)(uid \<mapsto> pid)\<rparr>"
  let ?m2 = "if isroot \<or> pid = 0 then ?m1\<lparr>roots := roots ?m1 @ [uid]\<rparr> else ?m1"
  have "loadPages_rows rs ?m2 = Inr m'" using "3.prems"(1) by (simp add: Let_def)
  moreover have "\<forall>x. pages ?m2 x = Some 0 \<longrightarrow> x \<in> set (roots ?m2)"
    using "3.prems"(2) by auto
  ultimately show ?case using "3.IH" [OF refl refl] "3.prems"(3) by blast
qed simp_all

text \<open>
  Claim C5. After \<open>loadPages\<close> has filled the fresh index, every id whose parent id in
  the map is 0 is in the root set and is its own root, whatever the root flags of the
  rows were.
\<close>

theorem zero_pid_is_root:
  "loadPages q make_mysql = Inr m \<Longrightarrow> pages m x = Some 0 \<Longrightarrow> isRoot m x \<and> root m x = Some x"
proof -
  assume l: "loadPages q make_mysql = Inr m" and p: "pages m x = Some 0"
  from l obtain rs where "loadPages_rows rs make_mysql = Inr m"
    by (auto simp: loadPages_def split: rows.splits)
  moreover have "\<forall>x. pages make_mysql x = Some 0 \<longrightarrow> x \<in> set (roots make_mysql)"
    by (simp add: make_mysql_def)
  ultimately have "x \<in> set (roots m)" using p by (rule loadPages_rows_zero_pid)
  then show ?thesis by (simp add: isRoot_iff root_def)
qed

theorem zero_pid_is_root_witness:
  "loadPages (Rows plain_rows) make_mysql = Inr plain_m \<and> pages plain_m 1 = Some 0
   \<and> isRoot plain_m 1 \<and> root plain_m 1 = Some 1"
proof -
  have l: "loadPages (Rows plain_rows) make_mysql = Inr plain_m"
    by (simp add: loadPages_def plain_rows_def make_mysql_def plain_m_def)
  have p: "pages plain_m 1 = Some 0" by (simp add: plain_m_def)
  from zero_pid_is_root [OF l p] l p show ?thesis by simp
qed

subsection \<open>Cycles\<close>

lemma root_loop_closed_set:
  assumes S: "\<forall>y\<in>S. \<exists>p. pages m y = Some p \<and> p \<in> S \<and> \<not> isRoot m p"
    and r: "root_loop m x = Some r"
  shows "x \<notin> S"
proof -
  have "m = m \<longrightarrow> x \<notin> S"
  proof (rule root_loop.raw_induct [where P = "\<lambda>m' x r. m' = m \<longrightarrow> x \<notin> S", OF _ r])
    fix f m' pid r
    assume IH: "\<And>m' pid r. f m' pid = Some r \<Longrightarrow> m' = m \<longrightarrow> pid \<notin> S"
      and b: "(case pages m' pid of None \<Rightarrow> Some 0
            | Some p \<Rightarrow> if isRoot m' p then Some p else f m' p) = Some r"
    show "m' = m \<longrightarrow> pid \<notin> S"
    proof (intro impI notI)
      assume m: "m' = m" and "pid \<in> S"
      with S obtain p where p: "pages m pid = Some p" "p \<in> S" "\<not> isRoot m p" by blast
      with b m have "f m p = Some r" by simp
      with IH have "p \<notin> S" by blast
      with p show False by simp
    qed
  qed
  then show ?thesis by simp
qed

lemma parent_rel_single_valued: "single_valued (parent_rel m)"
  by (auto simp: single_valued_def parent_rel_def)

lemma cycle_returns:
  assumes cyc: "(c, c) \<in> (parent_rel m)\<^sup>+" and y: "(c, y) \<in> (parent_rel m)\<^sup>*"
  shows "(y, c) \<in> (parent_rel m)\<^sup>*"
  using y
proof (induction rule: rtrancl_induct)
  case base
  show ?case by simp
next
  case (step y z)
  from cyc obtain c' where c': "(c, c') \<in> parent_rel m" "(c', c) \<in> (parent_rel m)\<^sup>*"
    by (meson tranclD)
  show ?case
  proof (cases "y = c")
    case True
    with step(2) c'(1) have "z = c'"
      using parent_rel_single_valued [of m] by (auto dest: single_valuedD)
    with c'(2) show ?thesis by simp
  next
    case False
    with step.IH obtain y' where y': "(y, y') \<in> parent_rel m" "(y', c) \<in> (parent_rel m)\<^sup>*"
      by (meson converse_rtranclE)
    with step(2) have "z = y'"
      using parent_rel_single_valued [of m] by (auto dest: single_valuedD)
    with y'(2) show ?thesis by simp
  qed
qed

text \<open>
  Claim C6. When the ascent from \<open>x\<close> leads into a cycle of the parent map (\<open>c\<close> is an id
  on the cycle) and no id on the way, the cycle included, is in the root set, \<open>root x\<close>
  does not return: the model's value is \<open>None\<close>.
\<close>

theorem root_cycle_diverges:
  assumes enters: "(x, c) \<in> (parent_rel m)\<^sup>*"
    and cyc: "(c, c) \<in> (parent_rel m)\<^sup>+"
    and noroot: "\<forall>y. (x, y) \<in> (parent_rel m)\<^sup>* \<longrightarrow> \<not> isRoot m y"
  shows "root m x = None"
proof -
  let ?R = "parent_rel m"
  let ?S = "{y. (x, y) \<in> ?R\<^sup>*}"
  have reach_c: "(y, c) \<in> ?R\<^sup>*" if "y \<in> ?S" for y
  proof -
    from that enters have "(y, c) \<in> ?R\<^sup>* \<or> (c, y) \<in> ?R\<^sup>*"
      using single_valued_confluent [OF parent_rel_single_valued] by blast
    then show ?thesis using cycle_returns [OF cyc] by blast
  qed
  have closed: "\<forall>y\<in>?S. \<exists>p. pages m y = Some p \<and> p \<in> ?S \<and> \<not> isRoot m p"
  proof
    fix y assume y: "y \<in> ?S"
    have "(y, c) \<in> ?R\<^sup>+"
    proof (cases "y = c")
      case True with cyc show ?thesis by simp
    next
      case False with reach_c [OF y] show ?thesis by (meson rtranclD)
    qed
    then obtain p where p: "(y, p) \<in> ?R" by (meson tranclD)
    with y have "p \<in> ?S" by (auto intro: rtrancl_into_rtrancl)
    with p noroot show "\<exists>p. pages m y = Some p \<and> p \<in> ?S \<and> \<not> isRoot m p"
      by (auto simp: parent_rel_def)
  qed
  have x: "x \<in> ?S" by simp
  have "root_loop m x = None"
  proof (cases "root_loop m x")
    case (Some r)
    from root_loop_closed_set [OF closed Some] x show ?thesis by blast
  qed simp
  moreover have "\<not> isRoot m x" using noroot by blast
  ultimately show ?thesis by (simp add: root_def)
qed

theorem root_cycle_diverges_witness: "root cyc_m 1 = None"
proof -
  have a: "(1, 2) \<in> parent_rel cyc_m" "(2, 3) \<in> parent_rel cyc_m" "(3, 2) \<in> parent_rel cyc_m"
    by (simp_all add: parent_rel_def cyc_m_def)
  have e: "(1, 2) \<in> (parent_rel cyc_m)\<^sup>*" using a(1) by blast
  have c: "(2, 2) \<in> (parent_rel cyc_m)\<^sup>+" using a(2,3) by (meson trancl.simps)
  have n: "\<forall>y. (1, y) \<in> (parent_rel cyc_m)\<^sup>* \<longrightarrow> \<not> isRoot cyc_m y"
    by (simp add: isRoot_def cyc_m_def)
  show ?thesis using root_cycle_diverges [OF e c n] .
qed

subsection \<open>loadDomains\<close>

text \<open>
  Claim C1, as stated, fails: the guard of \<open>loadDomains\<close> no longer reads the forced
  flag. For the rows \<open>a\<close>, \<open>b\<close>, \<open>c\<close> (forced) of one root id the binding is \<open>a\<close>.
\<close>

theorem forced_row_counterexample:
  "loadDomains (Rows forced_rows) make_mysql = Inr (make_mysql\<lparr>domains := [7 \<mapsto> ''a'']\<rparr>) \<and>
   domain (make_mysql\<lparr>domains := [7 \<mapsto> ''a'']\<rparr>) 7 = ''a'' \<and>
   domain (make_mysql\<lparr>domains := [7 \<mapsto> ''a'']\<rparr>) 7 \<noteq> ''c''"
  by (simp add: loadDomains_def forced_rows_def make_mysql_def domain_def)

text \<open>The guard of the earlier revision gave \<open>c\<close> on the same rows.\<close>

lemma loadDomains_rows_earlier_forced:
  "loadDomains_rows_earlier forced_rows make_mysql = Inr (make_mysql\<lparr>domains := [7 \<mapsto> ''c'']\<rparr>)"
  by (simp add: forced_rows_def make_mysql_def)

lemma loadDomains_rows_first:
  "\<exists>m'. loadDomains_rows (map Scanned rws) m = Inr m' \<and>
     (\<forall>r. domains m' r = (case domains m r of
                             Some d \<Rightarrow> Some d
                           | None \<Rightarrow> map_of (map (\<lambda>(pid, d, forced). (pid, d)) rws) r))"
proof (induction rws arbitrary: m)
  case Nil
  show ?case by (auto split: option.splits)
next
  case (Cons rw rws)
  obtain pid d forced where rw: "rw = (pid, d, forced)" by (cases rw)
  show ?case
  proof (cases "domains m pid")
    case None
    let ?m1 = "m\<lparr>domains := (domains m)(pid \<mapsto> d)\<rparr>"
    from Cons.IH [of ?m1] obtain m' where
      l: "loadDomains_rows (map Scanned rws) ?m1 = Inr m'" and
      d: "\<And>r. domains m' r = (case domains ?m1 r of
                             Some d \<Rightarrow> Some d
                           | None \<Rightarrow> map_of (map (\<lambda>(pid, d, forced). (pid, d)) rws) r)"
      by blast
    have "loadDomains_rows (map Scanned (rw # rws)) m = Inr m'"
      using None l by (simp add: rw)
    moreover have "domains m' r = (case domains m r of
                             Some d \<Rightarrow> Some d
                           | None \<Rightarrow> map_of (map (\<lambda>(pid, d, forced). (pid, d)) (rw # rws)) r)" for r
      using None d [of r] by (cases "r = pid") (simp_all add: rw split: option.splits)
    ultimately show ?thesis by blast
  next
    case (Some d')
    from Cons.IH [of m] obtain m' where
      l: "loadDomains_rows (map Scanned rws) m = Inr m'" and
      d: "\<And>r. domains m' r = (case domains m r of
                             Some d \<Rightarrow> Some d
                           | None \<Rightarrow> map_of (map (\<lambda>(pid, d, forced). (pid, d)) rws) r)"
      by blast
    have "loadDomains_rows (map Scanned (rw # rws)) m = Inr m'"
      using Some l by (simp add: rw)
    moreover have "domains m' r = (case domains m r of
                             Some d \<Rightarrow> Some d
                           | None \<Rightarrow> map_of (map (\<lambda>(pid, d, forced). (pid, d)) (rw # rws)) r)" for r
      using Some d [of r] by (cases "r = pid") (simp_all add: rw split: option.splits)
    ultimately show ?thesis by blast
  qed
qed

text \<open>
  Claim C1, amended. The first row seen for a root id that has no binding yet gives the
  binding; no later row for that id, forced or not, replaces it.
\<close>

theorem first_binding_wins:
  assumes "rws = pre @ (r, d, forced) # post"
    and "r \<notin> fst ` set pre"
    and "domains m r = None"
  shows "\<exists>m'. loadDomains (Rows (map Scanned rws)) m = Inr m' \<and> domain m' r = d"
proof -
  have "map_of (map (\<lambda>(pid, d, forced). (pid, d)) rws) r = Some d"
    using assms(1,2) by (induction pre arbitrary: rws) (auto simp: image_iff)
  then show ?thesis
    using assms(3) loadDomains_rows_first [of rws m] by (auto simp: loadDomains_def domain_def)
qed

theorem first_binding_wins_witness:
  "\<exists>m'. loadDomains (Rows (map Scanned [(7, ''a'', False), (7, ''b'', False), (7, ''c'', True)]))
           make_mysql = Inr m' \<and> domain m' 7 = ''a''"
proof -
  have a: "[(7, ''a'', False), (7, ''b'', False), (7, ''c'', True)]
           = [] @ (7::int, ''a'', False) # [(7, ''b'', False), (7, ''c'', True)]" by simp
  have b: "(7::int) \<notin> fst ` set ([] :: domains_row list)" by simp
  have c: "domains make_mysql 7 = None" by (simp add: make_mysql_def)
  show ?thesis using first_binding_wins [OF a b c] .
qed

subsection \<open>The selection without flags\<close>

text \<open>
  Claim C7. With neither \<^verbatim>\<open>-children\<close> nor \<^verbatim>\<open>-roots\<close>, a positive \<^verbatim>\<open>-pid\<close>
  and a query that runs, the selected ids are the ids of the query alone: the explicit
  pid is dropped.
\<close>

theorem identity_mode_replaces:
  "0 < pid \<Longrightarrow> q \<noteq> [] \<Longrightarrow> query (db q) nassoc m = (Inr qids, m') \<Longrightarrow>
   select ord m pid q db nassoc False False = Some (Inr (qids, m'))"
  by (simp add: select_def select_pid_def select_query_def)

theorem identity_mode_replaces_witness:
  "select (\<lambda>_. [1, 2, 3, 4, 6]) tree_m 3 ''SELECT 5'' one_query 0 False False
     = Some (Inr ([5], tree_m\<lparr>assoc := [5 \<mapsto> []]\<rparr>))"
proof -
  have a: "(0::int) < 3" by simp
  have b: "''SELECT 5'' \<noteq> []" by simp
  have c: "query (one_query ''SELECT 5'') 0 tree_m = (Inr [5], tree_m\<lparr>assoc := [5 \<mapsto> []]\<rparr>)"
    by (simp add: query_def one_query_def tree_m_def)
  show ?thesis
    using identity_mode_replaces [where db = one_query and q = "''SELECT 5''", OF a b c] .
qed

subsection \<open>query without associated columns\<close>

text \<open>
  Claim C9, as stated, fails: with \<^verbatim>\<open>nfields\<close> 0 the call still stores an (empty)
  slice under every uid it returns. On the fresh index the map \<open>assoc\<close> has no entry for 5
  before the call and the entry \<open>[]\<close> after it.
\<close>

theorem query_no_fields_counterexample:
  "query (Rows [Scanned (5, [])]) 0 make_mysql = (Inr [5], make_mysql\<lparr>assoc := [5 \<mapsto> []]\<rparr>) \<and>
   assoc make_mysql 5 = None \<and> assoc (make_mysql\<lparr>assoc := [5 \<mapsto> []]\<rparr>) 5 = Some [] \<and>
   assoc (make_mysql\<lparr>assoc := [5 \<mapsto> []]\<rparr>) \<noteq> assoc make_mysql"
  by (simp add: query_def make_mysql_def fun_eq_iff)

lemma query_rows_no_fields:
  "\<forall>r\<in>set rws. snd r = [] \<Longrightarrow>
   \<exists>m'. query_rows (map Scanned rws) 0 uids m = (Inr (uids @ map fst rws), m') \<and>
     assoc m' = (\<lambda>u. if u \<in> fst ` set rws then Some [] else assoc m u) \<and>
     pages m' = pages m \<and> domains m' = domains m \<and> roots m' = roots m"
proof (induction rws arbitrary: uids m)
  case Nil
  show ?case by simp
next
  case (Cons rw rws)
  obtain uid data where rw: "rw = (uid, data)" by (cases rw)
  with Cons.prems have data: "data = []" by simp
  let ?m1 = "m\<lparr>assoc := (assoc m)(uid \<mapsto> [])\<rparr>"
  from Cons.prems have "\<forall>r\<in>set rws. snd r = []" by simp
  from Cons.IH [OF this, of "uids @ [uid]" ?m1] obtain m' where
    q: "query_rows (map Scanned rws) 0 (uids @ [uid]) ?m1 = (Inr ((uids @ [uid]) @ map fst rws), m')"
    and a: "assoc m' = (\<lambda>u. if u \<in> fst ` set rws then Some [] else assoc ?m1 u)"
    and f: "pages m' = pages ?m1" "domains m' = domains ?m1" "roots m' = roots ?m1"
    by blast
  have "query_rows (map Scanned (rw # rws)) 0 uids m = (Inr (uids @ map fst (rw # rws)), m')"
    using q by (simp add: rw data)
  moreover have "assoc m' = (\<lambda>u. if u \<in> fst ` set (rw # rws) then Some [] else assoc m u)"
    using a by (auto simp: rw fun_eq_iff)
  ultimately show ?case using f by auto
qed

text \<open>
  Claim C9, amended. With 0 associated columns the call returns the uids of the rows in
  order, binds every returned uid to the empty sequence in \<open>assoc\<close>, and leaves the
  entries of all other ids and the rest of the index as they were.
\<close>

theorem query_no_fields:
  "\<forall>r\<in>set rws. snd r = [] \<Longrightarrow>
   \<exists>m'. query (Rows (map Scanned rws)) 0 m = (Inr (map fst rws), m') \<and>
     assoc m' = (\<lambda>u. if u \<in> fst ` set rws then Some [] else assoc m u) \<and>
     pages m' = pages m \<and> domains m' = domains m \<and> roots m' = roots m"
  using query_rows_no_fields [of rws "[]" m] by (simp add: query_def)

theorem query_no_fields_witness:
  "\<exists>m'. query (Rows (map Scanned [(5, []), (2, [])])) 0 tree_m = (Inr [5, 2], m') \<and>
     assoc m' 5 = Some [] \<and> assoc m' 2 = Some [] \<and> assoc m' 3 = None"
proof -
  have a: "\<forall>r\<in>set [(5::int, [] :: string list), (2, [])]. snd r = []" by simp
  from query_no_fields [OF a, of tree_m] show ?thesis
    by (auto simp: tree_m_def)
qed

subsection \<open>children\<close>

text \<open>What a call appends does not depend on the slice it is given.\<close>

lemma children_range_acc:
  assumes "children_range ord m ks pid pids = Some r"
  shows "\<exists>d. r = pids @ d \<and> (\<forall>pids'. children_range ord m ks pid pids' = Some (pids' @ d))"
proof (rule children_range.raw_induct
    [where P = "\<lambda>ord m ks pid pids r.
        \<exists>d. r = pids @ d \<and> (\<forall>pids'. children_range ord m ks pid pids' = Some (pids' @ d))",
      OF _ assms])
  fix f ord m ks pid pids r
  assume IH: "\<And>ord m ks pid pids r. f ord m ks pid pids = Some r \<Longrightarrow>
      \<exists>d. r = pids @ d \<and> (\<forall>pids'. children_range ord m ks pid pids' = Some (pids' @ d))"
    and b: "(case ks of [] \<Rightarrow> Some pids
         | uid # rest \<Rightarrow>
             if pages m uid = Some pid
             then f ord m (ord uid) uid (pids @ [uid]) \<bind> f ord m rest pid
             else f ord m rest pid pids) = Some r"
  show "\<exists>d. r = pids @ d \<and> (\<forall>pids'. children_range ord m ks pid pids' = Some (pids' @ d))"
  proof (cases ks)
    case Nil
    with b have "r = pids" by simp
    then show ?thesis using Nil by (simp add: children_range.simps)
  next
    case (Cons uid rest)
    show ?thesis
    proof (cases "pages m uid = Some pid")
      case True
      with b Cons obtain r1 where r1: "f ord m (ord uid) uid (pids @ [uid]) = Some r1"
        and r2: "f ord m rest pid r1 = Some r"
        by (auto simp: bind_eq_Some_conv)
      from IH [OF r1] obtain d1 where d1: "r1 = (pids @ [uid]) @ d1"
        "\<And>pids'. children_range ord m (ord uid) uid pids' = Some (pids' @ d1)" by blast
      from IH [OF r2] obtain d2 where d2: "r = r1 @ d2"
        "\<And>pids'. children_range ord m rest pid pids' = Some (pids' @ d2)" by blast
      have "r = pids @ (uid # d1 @ d2)" using d1(1) d2(1) by simp
      moreover have "children_range ord m ks pid pids' = Some (pids' @ (uid # d1 @ d2))" for pids'
        using Cons True d1(2) [of "pids' @ [uid]"] d2(2) [of "(pids' @ [uid]) @ d1"]
        by (subst children_range.simps) simp
      ultimately show ?thesis by blast
    next
      case False
      with b Cons have r2: "f ord m rest pid pids = Some r" by simp
      from IH [OF r2] obtain d2 where d2: "r = pids @ d2"
        "\<And>pids'. children_range ord m rest pid pids' = Some (pids' @ d2)" by blast
      have "children_range ord m ks pid pids' = Some (pids' @ d2)" for pids'
        using Cons False d2(2) [of pids'] by (subst children_range.simps) simp
      with d2(1) show ?thesis by blast
    qed
  qed
qed

lemma children_acc:
  "children ord m pid [] = Some d \<Longrightarrow> children ord m pid pids = Some (pids @ d)"
  unfolding children_def using children_range_acc [of ord m "ord pid" pid "[]" d] by auto


lemma parent_rel_iff: "(x, p) \<in> parent_rel m \<longleftrightarrow> pages m x = Some p"
  by (simp add: parent_rel_def)

lemma siblings_unrelated:
  assumes ac: "acyclic (parent_rel m)"
    and u: "pages m u = Some y" and u': "pages m u' = Some y" and ne: "u \<noteq> u'"
  shows "(u, u') \<notin> (parent_rel m)\<^sup>*"
proof
  assume "(u, u') \<in> (parent_rel m)\<^sup>*"
  with ne obtain z where z: "(u, z) \<in> parent_rel m" "(z, u') \<in> (parent_rel m)\<^sup>*"
    by (meson converse_rtranclE)
  with u have "z = y" by (simp add: parent_rel_iff)
  with z(2) u' have "(y, y) \<in> (parent_rel m)\<^sup>+"
    by (auto simp: parent_rel_iff intro: rtrancl_into_trancl1)
  with ac show False by (simp add: acyclic_def)
qed

lemma subtrees_disjoint:
  assumes ac: "acyclic (parent_rel m)"
    and u: "pages m u = Some y" and u': "pages m u' = Some y" and ne: "u \<noteq> u'"
    and x: "(x, u) \<in> (parent_rel m)\<^sup>*"
  shows "(x, u') \<notin> (parent_rel m)\<^sup>*"
proof
  assume "(x, u') \<in> (parent_rel m)\<^sup>*"
  with x have "(u, u') \<in> (parent_rel m)\<^sup>* \<or> (u', u) \<in> (parent_rel m)\<^sup>*"
    using single_valued_confluent [OF parent_rel_single_valued] by blast
  then show False
    using siblings_unrelated [OF ac u u' ne] siblings_unrelated [OF ac u' u] ne by blast
qed

lemma children_range_acyclic:
  assumes ac: "acyclic (parent_rel m)"
    and IH: "\<And>u. pages m u = Some y \<Longrightarrow>
       \<exists>d. (\<forall>pids. children ord m u pids = Some (pids @ d)) \<and> distinct d \<and>
           set d = {x. (x, u) \<in> (parent_rel m)\<^sup>+}"
    and ks: "distinct ks"
  shows "\<exists>d. (\<forall>pids. children_range ord m ks y pids = Some (pids @ d)) \<and> distinct d \<and>
           set d = {x. \<exists>u\<in>set ks. pages m u = Some y \<and> (x, u) \<in> (parent_rel m)\<^sup>*}"
  using ks
proof (induction ks)
  case Nil
  show ?case by (simp add: children_range.simps)
next
  case (Cons uid rest)
  then obtain d2 where d2: "\<And>pids. children_range ord m rest y pids = Some (pids @ d2)"
    "distinct d2"
    "set d2 = {x. \<exists>u\<in>set rest. pages m u = Some y \<and> (x, u) \<in> (parent_rel m)\<^sup>*}"
    by auto
  show ?case
  proof (cases "pages m uid = Some y")
    case False
    have "children_range ord m (uid # rest) y pids = Some (pids @ d2)" for pids
      using False d2(1) [of pids] by (subst children_range.simps) simp
    moreover have "set d2 = {x. \<exists>u\<in>set (uid # rest). pages m u = Some y \<and> (x, u) \<in> (parent_rel m)\<^sup>*}"
      using d2(3) False by auto
    ultimately show ?thesis using d2(2) by blast
  next
    case True
    from IH [OF True] obtain d1 where d1: "\<And>pids. children ord m uid pids = Some (pids @ d1)"
      "distinct d1" "set d1 = {x. (x, uid) \<in> (parent_rel m)\<^sup>+}" by blast
    let ?d = "uid # d1 @ d2"
    have run: "children_range ord m (uid # rest) y pids = Some (pids @ ?d)" for pids
      using True d1(1) [of "pids @ [uid]"] d2(1) [of "(pids @ [uid]) @ d1"]
      by (subst children_range.simps) (simp add: children_def)
    have below: "insert uid (set d1) = {x. (x, uid) \<in> (parent_rel m)\<^sup>*}"
      using d1(3) by (auto simp: rtrancl_eq_or_trancl)
    have "uid \<notin> set d1" using d1(3) ac by (simp add: acyclic_def)
    moreover have "insert uid (set d1) \<inter> set d2 = {}"
    proof -
      have "(x, u) \<notin> (parent_rel m)\<^sup>*"
        if "(x, uid) \<in> (parent_rel m)\<^sup>*" "u \<in> set rest" "pages m u = Some y" for x u
      proof -
        from that(2) Cons.prems have "uid \<noteq> u" by auto
        from subtrees_disjoint [OF ac True that(3) this that(1)] show ?thesis .
      qed
      then show ?thesis unfolding below d2(3) by blast
    qed
    ultimately have dist: "distinct ?d" using d1(2) d2(2) by auto
    have "set ?d = insert uid (set d1) \<union> set d2" by auto
    also have "\<dots> = {x. \<exists>u\<in>set (uid # rest). pages m u = Some y \<and> (x, u) \<in> (parent_rel m)\<^sup>*}"
      unfolding below d2(3) using True by auto
    finally show ?thesis using run dist by blast
  qed
qed

lemma finite_parent_rel: "finite (dom (pages m)) \<Longrightarrow> finite (parent_rel m)"
proof -
  assume f: "finite (dom (pages m))"
  have "parent_rel m \<subseteq> (\<lambda>x. (x, the (pages m x))) ` dom (pages m)"
    by (auto simp: parent_rel_def image_iff)
  with f show ?thesis by (meson finite_imageI finite_subset)
qed

lemma children_acyclic:
  assumes ac: "acyclic (parent_rel m)"
    and ord: "\<forall>p. distinct (ord p) \<and> set (ord p) = dom (pages m)"
  shows "\<exists>d. (\<forall>pids. children ord m y pids = Some (pids @ d)) \<and> distinct d \<and>
           set d = {x. (x, y) \<in> (parent_rel m)\<^sup>+}"
proof -
  have "finite (dom (pages m))" using ord by (metis List.finite_set)
  then have "wf (parent_rel m)" using ac by (simp add: finite_acyclic_wf finite_parent_rel)
  then show ?thesis
  proof (induction y rule: wf_induct_rule)
    case (less y)
    have IH: "\<exists>d. (\<forall>pids. children ord m u pids = Some (pids @ d)) \<and> distinct d \<and>
           set d = {x. (x, u) \<in> (parent_rel m)\<^sup>+}" if "pages m u = Some y" for u
      using less [of u] that by (simp add: parent_rel_iff)
    have "distinct (ord y)" using ord by simp
    from children_range_acyclic [OF ac IH this] obtain d where
      d: "\<And>pids. children_range ord m (ord y) y pids = Some (pids @ d)" "distinct d"
      "set d = {x. \<exists>u\<in>set (ord y). pages m u = Some y \<and> (x, u) \<in> (parent_rel m)\<^sup>*}"
      by blast
    have "set d = {x. (x, y) \<in> (parent_rel m)\<^sup>+}"
    proof -
      have "(\<exists>u\<in>set (ord y). pages m u = Some y \<and> (x, u) \<in> (parent_rel m)\<^sup>*)
            \<longleftrightarrow> (x, y) \<in> (parent_rel m)\<^sup>+" for x
      proof
        assume "\<exists>u\<in>set (ord y). pages m u = Some y \<and> (x, u) \<in> (parent_rel m)\<^sup>*"
        then show "(x, y) \<in> (parent_rel m)\<^sup>+"
          by (auto simp: parent_rel_iff intro: rtrancl_into_trancl1)
      next
        assume "(x, y) \<in> (parent_rel m)\<^sup>+"
        then obtain u where u: "(x, u) \<in> (parent_rel m)\<^sup>*" "(u, y) \<in> parent_rel m"
          by (meson tranclE rtrancl_eq_or_trancl trancl_into_rtrancl)
        then have "u \<in> set (ord y)" using ord by (auto simp: parent_rel_iff)
        with u show "\<exists>u\<in>set (ord y). pages m u = Some y \<and> (x, u) \<in> (parent_rel m)\<^sup>*"
          by (auto simp: parent_rel_iff)
      qed
      with d(3) show ?thesis by simp
    qed
    with d(1,2) show ?case by (auto simp: children_def)
  qed
qed

lemma count_list_distinct: "distinct xs \<Longrightarrow> x \<in> set xs \<Longrightarrow> count_list xs x = 1"
  by (induction xs) (auto simp: count_list_0_iff)

text \<open>
  Claim C3. When the parent map is acyclic, \<open>children\<close> seeded with \<open>y\<close> and the empty
  slice returns, in whatever order the map is ranged over, a sequence that holds every
  id from which \<open>y\<close> is reached by one or more parent hops, each exactly once, and
  that does not hold \<open>y\<close>.
\<close>

theorem descendants_complete:
  assumes "acyclic (parent_rel m)"
    and "\<forall>p. distinct (ord p) \<and> set (ord p) = dom (pages m)"
  shows "\<exists>d. children ord m y [] = Some d \<and>
           (\<forall>x. (x, y) \<in> (parent_rel m)\<^sup>+ \<longrightarrow> x \<in> set d \<and> count_list d x = 1) \<and>
           y \<notin> set d"
proof -
  from children_acyclic [OF assms, of y] obtain d where
    d: "\<And>pids. children ord m y pids = Some (pids @ d)" "distinct d"
    "set d = {x. (x, y) \<in> (parent_rel m)\<^sup>+}" by blast
  have "children ord m y [] = Some d" using d(1) [of "[]"] by simp
  moreover have "x \<in> set d \<and> count_list d x = 1" if "(x, y) \<in> (parent_rel m)\<^sup>+" for x
    using that d(2,3) by (simp add: count_list_distinct)
  moreover have "y \<notin> set d" using d(3) assms(1) by (simp add: acyclic_def)
  ultimately show ?thesis by blast
qed

lemma tree_m_acyclic: "acyclic (parent_rel tree_m)"
proof (rule acyclicI, rule allI)
  fix x
  have "b < a" if "(a, b) \<in> (parent_rel tree_m)\<^sup>+" for a b
    using that
  proof (induction rule: trancl_induct)
    case (base b)
    then show ?case by (auto simp: parent_rel_def tree_m_def split: if_splits)
  next
    case (step b c)
    from step(2) have "c < b" by (auto simp: parent_rel_def tree_m_def split: if_splits)
    with step.IH show ?case by simp
  qed
  then show "(x, x) \<notin> (parent_rel tree_m)\<^sup>+" by blast
qed

theorem descendants_complete_witness:
  "\<exists>d. children tree_ord tree_m 1 [] = Some d \<and>
       (\<forall>x. (x, 1) \<in> (parent_rel tree_m)\<^sup>+ \<longrightarrow> x \<in> set d \<and> count_list d x = 1) \<and> 1 \<notin> set d"
proof -
  have o: "\<forall>p. distinct (tree_ord p) \<and> set (tree_ord p) = dom (pages tree_m)"
    by (auto simp: tree_ord_def tree_m_def)
  show ?thesis using descendants_complete [OF tree_m_acyclic o] .
qed

subsection \<open>The selection with both flags\<close>

text \<open>\<open>query\<close> writes \<open>assoc\<close> only, and \<open>root\<close> and \<open>children\<close> do not read it.\<close>

lemma root_loop_frame_Some:
  assumes "root_loop m x = Some r"
  shows "\<forall>m'::mysql. pages m' = pages m \<and> roots m' = roots m \<longrightarrow> root_loop m' x = Some r"
proof (rule root_loop.raw_induct
    [where P = "\<lambda>m x r. \<forall>m'::mysql. pages m' = pages m \<and> roots m' = roots m \<longrightarrow> root_loop m' x = Some r",
      OF _ assms])
  fix f m pid r
  assume IH: "\<And>m pid r. f m pid = Some r \<Longrightarrow>
       \<forall>m'::mysql. pages m' = pages m \<and> roots m' = roots m \<longrightarrow> root_loop m' pid = Some r"
    and b: "(case pages m pid of None \<Rightarrow> Some 0
          | Some p \<Rightarrow> if isRoot m p then Some p else f m p) = Some r"
  show "\<forall>m'::mysql. pages m' = pages m \<and> roots m' = roots m \<longrightarrow> root_loop m' pid = Some r"
  proof (intro allI impI)
    fix m' :: mysql assume e: "pages m' = pages m \<and> roots m' = roots m"
    then have i: "isRoot m' = isRoot m" by (simp add: isRoot_def fun_eq_iff)
    show "root_loop m' pid = Some r"
    proof (cases "pages m pid")
      case None
      with b e show ?thesis by (simp add: root_loop.simps)
    next
      case (Some p)
      show ?thesis
      proof (cases "isRoot m p")
        case True
        with b e i Some show ?thesis by (simp add: root_loop.simps)
      next
        case False
        with b Some have "f m p = Some r" by simp
        with IH e have "root_loop m' p = Some r" by blast
        with False e i Some show ?thesis by (simp add: root_loop.simps)
      qed
    qed
  qed
qed

lemma root_frame:
  assumes "pages m' = pages m" and "roots m' = roots m"
  shows "root m' x = root m x"
proof -
  have i: "isRoot m' = isRoot m" using assms by (simp add: isRoot_def fun_eq_iff)
  have "root_loop m' x = root_loop m x"
  proof (cases "root_loop m x")
    case (Some r)
    with root_loop_frame_Some [OF Some] assms show ?thesis by simp
  next
    case None
    show ?thesis
    proof (cases "root_loop m' x")
      case (Some r)
      with root_loop_frame_Some [OF Some] assms None show ?thesis by simp
    qed (simp add: None)
  qed
  with i show ?thesis by (simp add: root_def)
qed

lemma children_range_frame_Some:
  assumes "children_range ord m ks pid pids = Some r"
  shows "\<forall>m'::mysql. pages m' = pages m \<longrightarrow> children_range ord m' ks pid pids = Some r"
proof (rule children_range.raw_induct
    [where P = "\<lambda>ord m ks pid pids r.
        \<forall>m'::mysql. pages m' = pages m \<longrightarrow> children_range ord m' ks pid pids = Some r",
      OF _ assms])
  fix f ord m ks pid pids r
  assume IH: "\<And>ord m ks pid pids r. f ord m ks pid pids = Some r \<Longrightarrow>
      \<forall>m'::mysql. pages m' = pages m \<longrightarrow> children_range ord m' ks pid pids = Some r"
    and b: "(case ks of [] \<Rightarrow> Some pids
         | uid # rest \<Rightarrow>
             if pages m uid = Some pid
             then f ord m (ord uid) uid (pids @ [uid]) \<bind> f ord m rest pid
             else f ord m rest pid pids) = Some r"
  show "\<forall>m'::mysql. pages m' = pages m \<longrightarrow> children_range ord m' ks pid pids = Some r"
  proof (intro allI impI)
    fix m' :: mysql assume e: "pages m' = pages m"
    show "children_range ord m' ks pid pids = Some r"
    proof (cases ks)
      case Nil
      with b show ?thesis by (simp add: children_range.simps)
    next
      case (Cons uid rest)
      show ?thesis
      proof (cases "pages m uid = Some pid")
        case True
        with b Cons obtain r1 where r1: "f ord m (ord uid) uid (pids @ [uid]) = Some r1"
          and r2: "f ord m rest pid r1 = Some r"
          by (auto simp: bind_eq_Some_conv)
        from IH [OF r1] e have "children_range ord m' (ord uid) uid (pids @ [uid]) = Some r1"
          by blast
        moreover from IH [OF r2] e have "children_range ord m' rest pid r1 = Some r" by blast
        ultimately show ?thesis using Cons True e by (subst children_range.simps) simp
      next
        case False
        with b Cons have "f ord m rest pid pids = Some r" by simp
        from IH [OF this] e have "children_range ord m' rest pid pids = Some r" by blast
        then show ?thesis using Cons False e by (subst children_range.simps) simp
      qed
    qed
  qed
qed

lemma children_frame_Some:
  "children ord m pid pids = Some r \<Longrightarrow> pages m' = pages m \<Longrightarrow> children ord m' pid pids = Some r"
  unfolding children_def using children_range_frame_Some by blast

lemma query_rows_frame:
  "query_rows rs n uids m = (res, m') \<Longrightarrow>
   pages m' = pages m \<and> roots m' = roots m \<and> domains m' = domains m"
  by (induction rs n uids m rule: query_rows.induct) (auto split: if_splits)

lemma query_frame:
  "query q nassoc m = (res, m') \<Longrightarrow>
   pages m' = pages m \<and> roots m' = roots m \<and> domains m' = domains m"
  by (auto simp: query_def split: rows.splits if_splits dest: query_rows_frame)

lemma children_each_concat:
  "list_all2 (\<lambda>qid d. children ord m qid [] = Some d) qids ds \<Longrightarrow>
   children_each ord m qids uids = Some (uids @ concat ds)"
proof (induction qids ds arbitrary: uids rule: list_all2_induct)
  case Nil
  show ?case by simp
next
  case (Cons qid qids d ds)
  from children_acc [OF Cons.hyps(1)] have "children ord m qid uids = Some (uids @ d)" .
  then show ?case using Cons.IH [of "uids @ d"] by simp
qed

lemma root_each_map:
  "list_all2 (\<lambda>qid r. root m qid = Some r) qids rs \<Longrightarrow>
   root_each m qids uids = Some (uids @ rs)"
proof (induction qids rs arbitrary: uids rule: list_all2_induct)
  case Nil
  show ?case by simp
next
  case (Cons qid qids r rs)
  then show ?case using Cons.IH [of "uids @ [r]"] by simp
qed

text \<open>
  Claim C8. With both \<^verbatim>\<open>-children\<close> and \<^verbatim>\<open>-roots\<close> set, the explicit pid
  contributes its descendants followed by its root, and the query contributes the
  descendants of each of its ids, in order, followed by the roots of each of its ids:
  both transforms run from every seed, and their outputs are concatenated.
\<close>

theorem both_flags_concatenate:
  assumes "0 < pid" and "q \<noteq> []"
    and qr: "query (db q) nassoc m = (Inr qids, m')"
    and d0: "children ord m pid [] = Some d0"
    and r0: "root m pid = Some r0"
    and ds: "list_all2 (\<lambda>qid d. children ord m qid [] = Some d) qids ds"
    and rs: "list_all2 (\<lambda>qid r. root m qid = Some r) qids rs"
  shows "select ord m pid q db nassoc True True
           = Some (Inr ((d0 @ [r0]) @ (concat ds @ rs), m'))"
proof -
  from query_frame [OF qr] have f: "pages m' = pages m" "roots m' = roots m" by simp_all
  have "select_pid ord m pid True True = Some (d0 @ [r0])"
    using assms(1) d0 r0 by (simp add: select_pid_def)
  moreover have "list_all2 (\<lambda>qid d. children ord m' qid [] = Some d) qids ds"
    using ds f(1) by (auto elim!: list_all2_mono dest: children_frame_Some)
  then have "children_each ord m' qids (d0 @ [r0]) = Some ((d0 @ [r0]) @ concat ds)"
    by (rule children_each_concat)
  moreover have "list_all2 (\<lambda>qid r. root m' qid = Some r) qids rs"
    using rs root_frame [OF f] by simp
  then have "root_each m' qids ((d0 @ [r0]) @ concat ds) = Some (((d0 @ [r0]) @ concat ds) @ rs)"
    by (rule root_each_map)
  ultimately show ?thesis
    using assms(2) qr by (simp add: select_def select_query_def)
qed

theorem both_flags_concatenate_witness:
  "select tree_ord tree_m 1 ''Q'' two_query 0 True True
     = Some (Inr ([4, 2, 3, 1, 3, 1, 0], tree_m\<lparr>assoc := [2 \<mapsto> [], 6 \<mapsto> []]\<rparr>))"
proof -
  have a: "(0::int) < 1" by simp
  have b: "''Q'' \<noteq> []" by simp
  have c: "query (two_query ''Q'') 0 tree_m = (Inr [2, 6], tree_m\<lparr>assoc := [2 \<mapsto> [], 6 \<mapsto> []]\<rparr>)"
    by (simp add: query_def two_query_def tree_m_def)
  have d: "children tree_ord tree_m 1 [] = Some [4, 2, 3]"
    by (simp add: children_def children_range.simps tree_m_def tree_ord_def)
  have e: "root tree_m 1 = Some 1"
    by (simp add: root_def isRoot_def tree_m_def)
  have f: "list_all2 (\<lambda>qid d. children tree_ord tree_m qid [] = Some d) [2, 6] [[3], []]"
    by (simp add: children_def children_range.simps tree_m_def tree_ord_def)
  have g: "list_all2 (\<lambda>qid r. root tree_m qid = Some r) [2, 6] [1, 0]"
    by (simp add: root_def isRoot_def root_loop.simps tree_m_def)
  show ?thesis
    using both_flags_concatenate [where db = two_query and q = "''Q''", OF a b c d e f g]
    by simp
qed

subsection \<open>The URL mode\<close>

lemma fill_fields_length: "fill_fields f i xs = Inr f' \<Longrightarrow> length f' = length f"
  by (induction f i xs rule: fill_fields.induct) (auto split: if_splits)

lemma url_loop_diverges:
  "root m uid = None \<Longrightarrow> url_loop m nassoc f (uid # us) = None"
  by simp

lemma url_loop_skip:
  "root m uid = Some rid \<Longrightarrow> domain m rid = [] \<Longrightarrow>
   url_loop m nassoc f (uid # us) = url_loop m nassoc f us"
  by simp

lemma url_loop_no_buffer:
  "root m uid = Some rid \<Longrightarrow> domain m rid \<noteq> [] \<Longrightarrow> 0 < nassoc \<Longrightarrow> f = [] \<Longrightarrow>
   url_loop m nassoc f (uid # us) = Some ([], Some IndexOutOfRange)"
  by simp

lemma url_loop_panic:
  "root m uid = Some rid \<Longrightarrow> domain m rid \<noteq> [] \<Longrightarrow> 0 < nassoc \<Longrightarrow> f \<noteq> [] \<Longrightarrow>
   fill_fields (f[0 := quoted_url (domain m rid) uid]) 0
     (case assoc m uid of None \<Rightarrow> [] | Some a \<Rightarrow> a) = Inl e \<Longrightarrow>
   url_loop m nassoc f (uid # us) = Some ([], Some e)"
  by simp

lemma url_loop_print:
  "root m uid = Some rid \<Longrightarrow> domain m rid \<noteq> [] \<Longrightarrow> 0 < nassoc \<Longrightarrow> f \<noteq> [] \<Longrightarrow>
   fill_fields (f[0 := quoted_url (domain m rid) uid]) 0
     (case assoc m uid of None \<Rightarrow> [] | Some a \<Rightarrow> a) = Inr f' \<Longrightarrow>
   url_loop m nassoc f (uid # us) =
     (case url_loop m nassoc f' us of None \<Rightarrow> None | Some (rows, e) \<Rightarrow> Some (f' # rows, e))"
  by (simp split: option.splits)

declare url_loop.simps(2) [simp del]

text \<open>
  The loop over \<open>us @ vs\<close> is the loop over \<open>us\<close>, then the loop over \<open>vs\<close> on the
  buffer as the first left it: the last printed row, or the buffer it started with.
\<close>

lemma url_loop_append:
  assumes n: "0 < nassoc"
  shows "url_loop m nassoc f (us @ vs) =
     (case url_loop m nassoc f us of
        None \<Rightarrow> None
      | Some (rows0, Some e) \<Rightarrow> Some (rows0, Some e)
      | Some (rows0, None) \<Rightarrow>
          (case url_loop m nassoc (if rows0 = [] then f else last rows0) vs of
             None \<Rightarrow> None
           | Some (rows1, e) \<Rightarrow> Some (rows0 @ rows1, e)))"
proof (induction us arbitrary: f)
  case Nil
  show ?case by (simp split: option.splits)
next
  case (Cons uid us)
  show ?case
  proof (cases "root m uid")
    case None
    then show ?thesis by (simp add: url_loop_diverges)
  next
    case (Some rid)
    note rid = Some
    show ?thesis
    proof (cases "domain m rid = []")
      case True
      show ?thesis
        using Cons.IH [of f] by (simp add: url_loop_skip [OF rid True])
    next
      case False
      note dom = False
      show ?thesis
      proof (cases "f = []")
        case True
        show ?thesis by (simp add: url_loop_no_buffer [OF rid dom n True])
      next
        case False
        note f = False
        show ?thesis
        proof (cases "fill_fields (f[0 := quoted_url (domain m rid) uid]) 0
                 (case assoc m uid of None \<Rightarrow> [] | Some a \<Rightarrow> a)")
          case (Inl e)
          show ?thesis by (simp add: url_loop_panic [OF rid dom n f Inl])
        next
          case (Inr f')
          show ?thesis
          proof (cases "url_loop m nassoc f' us")
            case None
            then show ?thesis
              using Cons.IH [of f'] by (simp add: url_loop_print [OF rid dom n f Inr])
          next
            case (Some res)
            obtain rows0 e0 where res: "res = (rows0, e0)" by (cases res)
            show ?thesis
            proof (cases e0)
              case None
              then show ?thesis
                using Cons.IH [of f'] Some res
                by (simp add: url_loop_print [OF rid dom n f Inr] split: option.splits)
            next
              case (Some e)
              then show ?thesis
                using Cons.IH [of f'] \<open>url_loop m nassoc f' us = Some res\<close> res
                by (simp add: url_loop_print [OF rid dom n f Inr])
            qed
          qed
        qed
      qed
    qed
  qed
qed

lemma url_loop_row_length:
  assumes n: "0 < nassoc"
  shows "url_loop m nassoc f us = Some (rows, e) \<Longrightarrow> r \<in> set rows \<Longrightarrow> length r = length f"
proof (induction us arbitrary: f rows)
  case Nil
  then show ?case by simp
next
  case (Cons uid us)
  from Cons.prems(1) obtain rid where rid: "root m uid = Some rid"
    by (cases "root m uid") (simp_all add: url_loop_diverges)
  show ?case
  proof (cases "domain m rid = []")
    case True
    with Cons rid show ?thesis by (simp add: url_loop_skip)
  next
    case False
    note dom = False
    show ?thesis
    proof (cases "f = []")
      case True
      show ?thesis using Cons.prems unfolding url_loop_no_buffer [OF rid dom n True] by simp
    next
      case False
      note f = False
      show ?thesis
      proof (cases "fill_fields (f[0 := quoted_url (domain m rid) uid]) 0
                 (case assoc m uid of None \<Rightarrow> [] | Some a \<Rightarrow> a)")
        case (Inl e')
        with Cons.prems show ?thesis by (simp add: url_loop_panic [OF rid dom n f Inl])
      next
        case (Inr f')
        have len: "length f' = length f" using fill_fields_length [OF Inr] by simp
        from Cons.prems(1) obtain rows' where
          r': "url_loop m nassoc f' us = Some (rows', e)" "rows = f' # rows'"
          by (auto simp: url_loop_print [OF rid dom n f Inr] split: option.splits)
        show ?thesis
        proof (cases "r = f'")
          case True
          with len show ?thesis by simp
        next
          case False
          with Cons.prems(2) r'(2) have "r \<in> set rows'" by simp
          from Cons.IH [OF r'(1) this] len show ?thesis by simp
        qed
      qed
    qed
  qed
qed

text \<open>
  Claim C10. In the URL mode with a positive number of associated columns, an id that is
  printed and has no entry in \<open>assoc\<close> gets a row whose associated fields are those
  of the row printed before it, or empty strings when it is the first row printed: the
  buffer is made once and only the fields of an id with an entry are overwritten.
\<close>

theorem stale_fields_reused:
  assumes n: "0 < nassoc" and int64: "nassoc < 2 ^ 63"
    and before: "url_mode m nassoc us = Some (rows0, None)"
    and rid: "root m uid = Some rid" and dom: "domain m rid \<noteq> []"
    and noassoc: "assoc m uid = None"
  shows "url_mode m nassoc (us @ uid # rest) =
     (let row = quoted_url (domain m rid) uid #
                  (if rows0 = [] then replicate (nat nassoc) [] else tl (last rows0))
      in case url_loop m nassoc row rest of
           None \<Rightarrow> None
         | Some (rows1, e) \<Rightarrow> Some (rows0 @ row # rows1, e))"
proof -
  let ?f0 = "replicate (nat (nassoc + 1)) ([] :: string)"
  let ?buf = "if rows0 = [] then ?f0 else last rows0"
  let ?q = "quoted_url (domain m rid) uid"
  have nowrap: "\<not> wrap64 (nassoc + 1) < 0"
    using before by (auto simp: url_mode_def split: if_splits)
  have "nassoc + 1 \<noteq> 2 ^ 63"
    using nowrap wrap64_overflow by auto
  with n int64 have w: "wrap64 (nassoc + 1) = nassoc + 1"
    by (simp add: wrap64_in_range)
  have mode: "url_mode m nassoc vs = url_loop m nassoc ?f0 vs" for vs
    using nowrap w by (simp add: url_mode_def)
  have b: "url_loop m nassoc ?f0 us = Some (rows0, None)"
    using before mode by simp
  have f0: "?f0 = [] # replicate (nat nassoc) []"
    using n by (simp add: nat_add_distrib)
  have len: "length ?buf = length ?f0"
  proof (cases "rows0 = []")
    case False
    then have "last rows0 \<in> set rows0" by simp
    from url_loop_row_length [OF n b this] False show ?thesis by simp
  qed simp
  then have "length ?buf = Suc (nat nassoc)" using f0 by simp
  then have ne: "?buf \<noteq> []" by (metis length_0_conv nat.distinct(1))
  then have upd: "?buf[0 := ?q] = ?q # tl ?buf" by (cases ?buf) simp_all
  have tl: "tl ?buf = (if rows0 = [] then replicate (nat nassoc) [] else tl (last rows0))"
    using f0 by simp
  have fill: "fill_fields (?buf[0 := ?q]) 0 (case assoc m uid of None \<Rightarrow> [] | Some a \<Rightarrow> a)
              = Inr (?q # tl ?buf)"
    using noassoc upd by simp
  have "url_mode m nassoc (us @ uid # rest) = url_loop m nassoc ?f0 (us @ uid # rest)"
    using mode .
  also have "\<dots> = (case url_loop m nassoc ?buf (uid # rest) of
                      None \<Rightarrow> None
                    | Some (rows1, e) \<Rightarrow> Some (rows0 @ rows1, e))"
    unfolding url_loop_append [OF n] b by simp
  also have "url_loop m nassoc ?buf (uid # rest) =
      (case url_loop m nassoc (?q # tl ?buf) rest of
         None \<Rightarrow> None
       | Some (rows, e) \<Rightarrow> Some ((?q # tl ?buf) # rows, e))"
    using url_loop_print [OF rid dom n ne fill] .
  finally show ?thesis
    unfolding tl by (simp add: Let_def split: option.splits)
qed

theorem stale_fields_reused_witness:
  "url_mode assoc_m 2 [2, 3] =
     Some ([[quoted_url ''example.com'' 2, quoted ''x'', quoted ''y''],
            [quoted_url ''example.com'' 3, quoted ''x'', quoted ''y'']], None)"
proof -
  have a: "(0::int) < 2" and a': "(2::int) < 2 ^ 63" by simp_all
  have r2: "root assoc_m 2 = Some 1" and r3: "root assoc_m 3 = Some 1"
    by (simp_all add: root_def isRoot_def root_loop.simps assoc_m_def)
  have d: "domain assoc_m 1 = ''example.com''" by (simp add: domain_def assoc_m_def)
  have b: "url_mode assoc_m 2 [2] =
      Some ([[quoted_url ''example.com'' 2, quoted ''x'', quoted ''y'']], None)"
    using r2 d
    by (simp add: url_mode_def url_loop.simps assoc_m_def wrap64_in_range eval_nat_numeral)
  have c: "domain assoc_m 1 \<noteq> []" by (simp add: d)
  have e: "assoc assoc_m 3 = None" by (simp add: assoc_m_def)
  from stale_fields_reused [OF a a' b r3 c e, of "[]"] show ?thesis
    by (simp add: d)
qed

text \<open>What is printed for an id and for an id list.\<close>

lemma url_example: "url ''example.com'' 1 = ''https://example.com/index.php?id=1''"
  by code_simp

lemma intsToString_example: "intsToString [4, 2, 13] '', '' = ''4, 2, 13''"
  by code_simp

subsection \<open>The end-to-end example\<close>

lemma newMysql_example:
  "newMysql example_db =
     Inr \<lparr>pages = [1 \<mapsto> 0, 2 \<mapsto> 1, 3 \<mapsto> 2], domains = [1 \<mapsto> ''example.com''],
          assoc = Map.empty, roots = [1]\<rparr>"
  by (simp add: newMysql_def example_db_def loadPages_def loadDomains_def make_mysql_def)

lemma main_example:
  "main ord example_db example_flags = Some ([''https://example.com/index.php?id=1'' @ [CHR 0x0A]], None)"
proof -
  let ?m = "\<lparr>pages = [1 \<mapsto> 0, 2 \<mapsto> 1, 3 \<mapsto> (2::int)], domains = [1 \<mapsto> ''example.com''],
          assoc = Map.empty, roots = [1]\<rparr>"
  have r3: "root ?m 3 = Some 1" and r1: "root ?m 1 = Some 1"
    by (simp_all add: root_def isRoot_def root_loop.simps)
  have "select ord ?m 3 [] (db_query example_db) 0 False True = Some (Inr ([1], ?m))"
    using r3 by (simp add: select_def select_pid_def)
  moreover have "url_mode ?m 0 [1] = Some ([[url ''example.com'' 1]], None)"
    using r1 by (simp add: url_mode_def url_loop.simps domain_def)
  moreover have "print_row [url ''example.com'' 1] = ''https://example.com/index.php?id=1'' @ [CHR 0x0A]"
    by code_simp
  ultimately show ?thesis
    by (simp add: main_def newMysql_example example_flags_def)
qed

end
